theory Spec2Isabelle
  imports Complex_Main
begin

section \<open>Errors\<close>

text \<open>
  The three ways a call of the modelled code can end abnormally: \<open>throw new Error(msg)\<close>,
  \<open>throw new RangeError(msg)\<close>, and the \<open>TypeError\<close> the JavaScript runtime raises when a
  property of \<open>undefined\<close> is read.
\<close>

datatype error = Error string | RangeError string | TypeError

section \<open>Numbers\<close>

text \<open>
  The indices of \<open>insertAt\<close> and \<open>removeAt\<close> are declared \<open>index: number\<close>: a finite value,
  \<open>NaN\<close>, \<open>Infinity\<close> or \<open>-Infinity\<close>. A finite value is a rational; \<open>-0\<close> is \<open>0\<close>, from
  which no operation used here tells it apart. The comparisons are those of JavaScript:
  every comparison with \<open>NaN\<close> is false. The one subtraction of the code, \<open>index - 1\<close>, is
  exact here; it is only compared with an integer counter \<open>i \<ge> 0\<close>, and the rounding of
  the machine subtraction does not change that comparison.
\<close>

datatype number = Num rat | NaN | PosInfinity | NegInfinity

fun js_lt :: "number \<Rightarrow> number \<Rightarrow> bool" where
  "js_lt (Num a) (Num b) = (a < b)"
| "js_lt (Num a) PosInfinity = True"
| "js_lt NegInfinity (Num b) = True"
| "js_lt NegInfinity PosInfinity = True"
| "js_lt _ _ = False"

fun js_eq :: "number \<Rightarrow> number \<Rightarrow> bool" where
  "js_eq NaN _ = False"
| "js_eq _ NaN = False"
| "js_eq a b = (a = b)"

definition js_gt :: "number \<Rightarrow> number \<Rightarrow> bool" where
  "js_gt a b = js_lt b a"

definition js_ge :: "number \<Rightarrow> number \<Rightarrow> bool" where
  "js_ge a b = (js_lt b a \<or> js_eq a b)"

fun js_sub :: "number \<Rightarrow> number \<Rightarrow> number" where
  "js_sub (Num a) (Num b) = Num (a - b)"
| "js_sub NaN _ = NaN"
| "js_sub _ NaN = NaN"
| "js_sub PosInfinity PosInfinity = NaN"
| "js_sub NegInfinity NegInfinity = NaN"
| "js_sub PosInfinity _ = PosInfinity"
| "js_sub NegInfinity _ = NegInfinity"
| "js_sub (Num a) PosInfinity = NegInfinity"
| "js_sub (Num a) NegInfinity = PosInfinity"

text \<open>An integer (a loop counter, the counter \<open>_size\<close>) as a number.\<close>

definition int_number :: "int \<Rightarrow> number" where
  "int_number i = Num (of_int i)"

section \<open>\<open>ensureHasLength\<close> (generics.ts, lines 12-19)\<close>

text \<open>
  \<open>interface HasLength { length: number }\<close> is an extensible record: a value of any type
  \<open>T extends HasLength\<close> is a record with at least the field \<open>length\<close> (named
  \<open>length'\<close> here, \<open>length\<close> being the list function of HOL).
\<close>

record HasLength =
  length' :: int

definition ensureHasLength :: "'a HasLength_scheme \<Rightarrow> error + 'a HasLength_scheme" where
  "ensureHasLength arg =
     (if length' arg = 0 then Inl (Error ''Empty'') else Inr arg)"

text \<open>An array seen as a value with a \<open>length\<close>: the two calls of the source pass
  \<open>[1, 2, 3]\<close> and \<open>'abc'\<close>.\<close>

definition arrayValue :: "'a list \<Rightarrow> 'a list HasLength_scheme" where
  "arrayValue xs = \<lparr>length' = int (length xs), \<dots> = xs\<rparr>"

section \<open>\<open>Stack\<close> (generics.ts, lines 35-40)\<close>

record 'a Stack =
  items :: "'a list"

definition newStack :: "'a Stack" where
  "newStack = \<lparr>items = []\<rparr>"

text \<open>Reading a JavaScript array at an index: \<open>undefined\<close> outside the array.\<close>

definition arrayGet :: "'a list \<Rightarrow> int \<Rightarrow> 'a option" where
  "arrayGet xs i = (if 0 \<le> i \<and> i < int (length xs) then Some (xs ! nat i) else None)"

text \<open>\<open>Array.prototype.pop\<close>: removes and returns the last element, \<open>undefined\<close> on an empty
  array, which it leaves empty.\<close>

definition arrayPop :: "'a list \<Rightarrow> 'a option \<times> 'a list" where
  "arrayPop xs = (if xs = [] then (None, xs) else (Some (last xs), butlast xs))"

definition push :: "'a \<Rightarrow> 'a Stack \<Rightarrow> 'a Stack" where
  "push item s = s\<lparr>items := items s @ [item]\<rparr>"

definition pop :: "'a Stack \<Rightarrow> 'a option \<times> 'a Stack" where
  "pop s = (case arrayPop (items s) of (r, xs) \<Rightarrow> (r, s\<lparr>items := xs\<rparr>))"

definition peek :: "'a Stack \<Rightarrow> 'a option" where
  "peek s = arrayGet (items s) (int (length (items s)) - 1)"

section \<open>\<open>LinkedList\<close> (generics.ts, lines 201-305)\<close>

text \<open>
  A node owns its successor: nodes are created inside \<open>add\<close> and \<open>insertAt\<close> only, \<open>head\<close> is
  private and no method hands a node out, so no node is shared and no chain is cyclic.
  The chain is therefore a datatype, and an assignment to \<open>cur.next\<close> rebuilds the nodes
  from the head down to \<open>cur\<close>. The counter \<open>_size\<close> starts at \<open>0\<close> and only moves by one,
  so it is an integer; an index is any number.
\<close>

datatype 'a LinkedListNode =
  LinkedListNode (node_value: 'a) (node_next: "'a LinkedListNode option")

record 'a LinkedList =
  head :: "'a LinkedListNode option"
  size_field :: int

definition newLinkedList :: "'a LinkedList" where
  "newLinkedList = \<lparr>head = None, size_field = 0\<rparr>"

text \<open>\<open>add\<close>: the loop \<open>while (cur.next) cur = cur.next\<close> followed by \<open>cur.next = node\<close>.\<close>

fun add_loop :: "'a LinkedListNode \<Rightarrow> 'a LinkedListNode \<Rightarrow> 'a LinkedListNode" where
  "add_loop (LinkedListNode v None) node = LinkedListNode v (Some node)"
| "add_loop (LinkedListNode v (Some nx)) node = LinkedListNode v (Some (add_loop nx node))"

definition add :: "'a \<Rightarrow> 'a LinkedList \<Rightarrow> 'a LinkedList" where
  "add v l =
     (let node = LinkedListNode v None in
      (case head l of
         None \<Rightarrow> l\<lparr>head := Some node\<rparr>
       | Some h \<Rightarrow> l\<lparr>head := Some (add_loop h node)\<rparr>)
      \<lparr>size_field := size_field l + 1\<rparr>)"

definition fromArray :: "'a list \<Rightarrow> 'a LinkedList" where
  "fromArray arr = foldl (\<lambda>l v. add v l) newLinkedList arr"

text \<open>
  \<open>insertAt\<close>, the else branch: \<open>for (let i = 0; i < index - 1; i++) cur = cur.next!\<close>, then
  \<open>node.next = cur.next; cur.next = node\<close>. The \<open>!\<close> checks nothing at run time: when
  \<open>cur.next\<close> is \<open>undefined\<close>, \<open>cur\<close> becomes \<open>undefined\<close> and the next read of \<open>cur.next\<close>
  (in the loop or after it) raises a \<open>TypeError\<close>, before anything was written. The same
  happens when \<open>head\<close> itself is \<open>undefined\<close>.
\<close>

fun insertAt_loop :: "'a LinkedListNode \<Rightarrow> int \<Rightarrow> number \<Rightarrow> 'a \<Rightarrow> error + 'a LinkedListNode" where
  "insertAt_loop (LinkedListNode v nx) i index val =
     (if js_lt (int_number i) (js_sub index (Num 1)) then
        (case nx of
           None \<Rightarrow> Inl TypeError
         | Some c \<Rightarrow>
             (case insertAt_loop c (i + 1) index val of
                Inl e \<Rightarrow> Inl e
              | Inr c' \<Rightarrow> Inr (LinkedListNode v (Some c'))))
      else Inr (LinkedListNode v (Some (LinkedListNode val nx))))"

text \<open>The result of a call is what it returns or throws, and the list after it.\<close>

definition insertAt :: "number \<Rightarrow> 'a \<Rightarrow> 'a LinkedList \<Rightarrow> (error + unit) \<times> 'a LinkedList" where
  "insertAt index val l =
     (if js_lt index (Num 0) \<or> js_gt index (int_number (size_field l)) then
        (Inl (RangeError ''index out of bounds''), l)
      else if js_eq index (Num 0) then
        (Inr (), l\<lparr>head := Some (LinkedListNode val (head l)), size_field := size_field l + 1\<rparr>)
      else
        (case head l of
           None \<Rightarrow> (Inl TypeError, l)
         | Some h \<Rightarrow>
             (case insertAt_loop h 0 index val of
                Inl e \<Rightarrow> (Inl e, l)
              | Inr h' \<Rightarrow> (Inr (), l\<lparr>head := Some h', size_field := size_field l + 1\<rparr>))))"

text \<open>
  \<open>removeAt\<close>, the else branch: the same walk, then \<open>removed = cur.next;
  cur.next = cur.next?.next\<close>. The loop returns the removed node and the rebuilt chain.
\<close>

fun removeAt_loop ::
  "'a LinkedListNode \<Rightarrow> int \<Rightarrow> number \<Rightarrow> error + ('a LinkedListNode option \<times> 'a LinkedListNode)" where
  "removeAt_loop (LinkedListNode v nx) i index =
     (if js_lt (int_number i) (js_sub index (Num 1)) then
        (case nx of
           None \<Rightarrow> Inl TypeError
         | Some c \<Rightarrow>
             (case removeAt_loop c (i + 1) index of
                Inl e \<Rightarrow> Inl e
              | Inr (removed, c') \<Rightarrow> Inr (removed, LinkedListNode v (Some c'))))
      else
        (case nx of
           None \<Rightarrow> Inr (None, LinkedListNode v None)
         | Some r \<Rightarrow> Inr (Some r, LinkedListNode v (node_next r))))"

definition removeAt :: "number \<Rightarrow> 'a LinkedList \<Rightarrow> (error + 'a option) \<times> 'a LinkedList" where
  "removeAt index l =
     (if js_lt index (Num 0) \<or> js_ge index (int_number (size_field l)) then (Inr None, l)
      else
        (case (if js_eq index (Num 0) then
                 Inr (head l, (case head l of None \<Rightarrow> None | Some h \<Rightarrow> node_next h))
               else
                 (case head l of
                    None \<Rightarrow> Inl TypeError
                  | Some h \<Rightarrow>
                      (case removeAt_loop h 0 index of
                         Inl e \<Rightarrow> Inl e
                       | Inr (removed, h') \<Rightarrow> Inr (removed, Some h')))) of
           Inl e \<Rightarrow> (Inl e, l)
         | Inr (removed, hd') \<Rightarrow>
             (Inr (map_option node_value removed),
              l\<lparr>head := hd',
                size_field := (if removed \<noteq> None then size_field l - 1 else size_field l)\<rparr>)))"

text \<open>\<open>find\<close> and \<open>toArray\<close>: the loop \<open>while (cur) { ...; cur = cur.next }\<close> from \<open>cur\<close>.\<close>

fun find_loop :: "('a \<Rightarrow> bool) \<Rightarrow> 'a LinkedListNode option \<Rightarrow> 'a option" where
  "find_loop predicate None = None"
| "find_loop predicate (Some (LinkedListNode v nx)) =
     (if predicate v then Some v else find_loop predicate nx)"

definition find_ll :: "('a \<Rightarrow> bool) \<Rightarrow> 'a LinkedList \<Rightarrow> 'a option" where
  "find_ll predicate l = find_loop predicate (head l)"

fun toArray_loop :: "'a LinkedListNode option \<Rightarrow> 'a list \<Rightarrow> 'a list" where
  "toArray_loop None out = out"
| "toArray_loop (Some (LinkedListNode v nx)) out = toArray_loop nx (out @ [v])"

definition toArray :: "'a LinkedList \<Rightarrow> 'a list" where
  "toArray l = toArray_loop (head l) []"

definition size_ll :: "'a LinkedList \<Rightarrow> int" where
  "size_ll l = size_field l"

definition clear :: "'a LinkedList \<Rightarrow> 'a LinkedList" where
  "clear l = l\<lparr>head := None, size_field := 0\<rparr>"

text \<open>A run of public operations on a list. A call that throws leaves the list as it
  was, and the run goes on from there (the caller caught the error).\<close>

datatype 'a operation = Add 'a | InsertAt number 'a | RemoveAt number | Clear

fun apply_operation :: "'a LinkedList \<Rightarrow> 'a operation \<Rightarrow> 'a LinkedList" where
  "apply_operation l (Add v) = add v l"
| "apply_operation l (InsertAt i v) = snd (insertAt i v l)"
| "apply_operation l (RemoveAt i) = snd (removeAt i l)"
| "apply_operation l Clear = clear l"

definition run :: "'a list \<Rightarrow> 'a operation list \<Rightarrow> 'a LinkedList" where
  "run arr ops = foldl apply_operation (fromArray arr) ops"

section \<open>The sequence a chain of nodes holds\<close>

text \<open>The values met when following \<open>next\<close> from a node: what the loops above are
  compared with.\<close>

fun chain :: "'a LinkedListNode option \<Rightarrow> 'a list" where
  "chain None = []"
| "chain (Some (LinkedListNode v nx)) = v # chain nx"

section \<open>The loops, in terms of the sequence\<close>

lemma toArray_loop_chain: "toArray_loop nx out = out @ chain nx"
  by (induction nx out rule: toArray_loop.induct) simp_all

lemma toArray_chain: "toArray l = chain (head l)"
  by (simp add: toArray_def toArray_loop_chain)

lemma chain_add_loop: "chain (Some (add_loop h node)) = chain (Some h) @ chain (Some node)"
  by (induction h node rule: add_loop.induct) simp_all

lemma find_loop_chain: "find_loop p nx = List.find p (chain nx)"
  by (induction p nx rule: find_loop.induct) simp_all

text \<open>The loop test \<open>i < index - 1\<close> at a finite index \<open>x\<close> is the test at the integer
  \<open>\<lceil>x\<rceil>\<close>; at \<open>NaN\<close> it is false.\<close>

lemma loop_test_Num: "js_lt (int_number i) (Num (x - 1)) \<longleftrightarrow> i < \<lceil>x\<rceil> - 1"
proof -
  have "of_int i < x - 1 \<longleftrightarrow> of_int (i + 1) < x" by auto
  also have "\<dots> \<longleftrightarrow> i + 1 < \<lceil>x\<rceil>" by (simp only: less_ceiling_iff)
  also have "\<dots> \<longleftrightarrow> i < \<lceil>x\<rceil> - 1" by auto
  finally show ?thesis by (simp add: int_number_def)
qed

lemma loop_test_NaN: "\<not> js_lt (int_number i) (js_sub NaN (Num 1))"
  by (simp add: int_number_def)

lemma insertAt_loop_ok:
  assumes "i \<le> \<lceil>x\<rceil> - 1" and "nat (\<lceil>x\<rceil> - 1 - i) < length (chain (Some h))"
  shows "\<exists>h'. insertAt_loop h i (Num x) val = Inr h' \<and>
           chain (Some h') =
             take (nat (\<lceil>x\<rceil> - i)) (chain (Some h)) @ val # drop (nat (\<lceil>x\<rceil> - i)) (chain (Some h))"
  using assms
proof (induction h arbitrary: i)
  case (LinkedListNode v nx)
  show ?case
  proof (cases "i < \<lceil>x\<rceil> - 1")
    case False
    with LinkedListNode.prems have "\<lceil>x\<rceil> - i = 1" by simp
    with False show ?thesis by (simp add: loop_test_Num)
  next
    case True
    show ?thesis
    proof (cases nx)
      case None
      with True LinkedListNode.prems show ?thesis by (simp add: loop_test_Num)
    next
      case (Some c)
      from True LinkedListNode.prems Some
      have len: "nat (\<lceil>x\<rceil> - 1 - (i + 1)) < length (chain (Some c))"
        by simp
      from True have le: "i + 1 \<le> \<lceil>x\<rceil> - 1" by simp
      from Some have "c \<in> set_option nx" by simp
      from LinkedListNode.IH [OF this le len] obtain c' where
        c': "insertAt_loop c (i + 1) (Num x) val = Inr c'"
        "chain (Some c') =
             take (nat (\<lceil>x\<rceil> - (i + 1))) (chain (Some c)) @ val #
             drop (nat (\<lceil>x\<rceil> - (i + 1))) (chain (Some c))" by blast
      from True have "nat (\<lceil>x\<rceil> - i) = Suc (nat (\<lceil>x\<rceil> - (i + 1)))" by simp
      with True Some c' show ?thesis by (simp add: loop_test_Num)
    qed
  qed
qed

lemma removeAt_loop_ok:
  assumes "i \<le> \<lceil>x\<rceil> - 1" and "nat (\<lceil>x\<rceil> - i) < length (chain (Some h))"
  shows "\<exists>r h'. removeAt_loop h i (Num x) = Inr (Some r, h') \<and>
           node_value r = chain (Some h) ! nat (\<lceil>x\<rceil> - i) \<and>
           chain (Some h') =
             take (nat (\<lceil>x\<rceil> - i)) (chain (Some h)) @ drop (nat (\<lceil>x\<rceil> - i) + 1) (chain (Some h))"
  using assms
proof (induction h arbitrary: i)
  case (LinkedListNode v nx)
  show ?case
  proof (cases "i < \<lceil>x\<rceil> - 1")
    case False
    with LinkedListNode.prems have one: "\<lceil>x\<rceil> - i = 1" by simp
    with LinkedListNode.prems obtain r where r: "nx = Some r" by (cases nx) simp_all
    obtain w rest where "r = LinkedListNode w rest" by (cases r)
    with False one r show ?thesis by (simp add: loop_test_Num)
  next
    case True
    show ?thesis
    proof (cases nx)
      case None
      with True LinkedListNode.prems show ?thesis by (simp add: loop_test_Num)
    next
      case (Some c)
      from True LinkedListNode.prems Some
      have len: "nat (\<lceil>x\<rceil> - (i + 1)) < length (chain (Some c))"
        by simp
      from True have le: "i + 1 \<le> \<lceil>x\<rceil> - 1" by simp
      from Some have "c \<in> set_option nx" by simp
      from LinkedListNode.IH [OF this le len] obtain r c' where
        c': "removeAt_loop c (i + 1) (Num x) = Inr (Some r, c')"
        "node_value r = chain (Some c) ! nat (\<lceil>x\<rceil> - (i + 1))"
        "chain (Some c') =
             take (nat (\<lceil>x\<rceil> - (i + 1))) (chain (Some c)) @
             drop (nat (\<lceil>x\<rceil> - (i + 1)) + 1) (chain (Some c))" by blast
      from True have "nat (\<lceil>x\<rceil> - i) = Suc (nat (\<lceil>x\<rceil> - (i + 1)))" by simp
      with True Some c' show ?thesis by (simp add: loop_test_Num)
    qed
  qed
qed

text \<open>Whatever the index, a loop that returns has added, or taken out, one node or none.\<close>

lemma insertAt_loop_length:
  "insertAt_loop h i index val = Inr h' \<Longrightarrow>
   length (chain (Some h')) = Suc (length (chain (Some h)))"
proof (induction h arbitrary: i h')
  case (LinkedListNode v nx)
  show ?case
  proof (cases "js_lt (int_number i) (js_sub index (Num 1))")
    case False
    with LinkedListNode.prems show ?thesis by auto
  next
    case True
    with LinkedListNode.prems obtain c where c: "nx = Some c" by (cases nx) simp_all
    with True LinkedListNode.prems obtain c' where
      c': "insertAt_loop c (i + 1) index val = Inr c'" "h' = LinkedListNode v (Some c')"
      by (auto split: sum.splits)
    from c have "c \<in> set_option nx" by simp
    from LinkedListNode.IH [OF this c'(1)] c c'(2) show ?thesis by simp
  qed
qed

lemma insertAt_loop_no_RangeError: "insertAt_loop h i index val \<noteq> Inl (RangeError s)"
proof (induction h arbitrary: i)
  case (LinkedListNode v nx)
  show ?case
  proof (cases nx)
    case None
    then show ?thesis by simp
  next
    case (Some c)
    then have "c \<in> set_option nx" by simp
    from LinkedListNode.IH [OF this, of "i + 1"] Some show ?thesis
      by (auto split: sum.splits)
  qed
qed

lemma removeAt_loop_length:
  "removeAt_loop h i index = Inr (removed, h') \<Longrightarrow>
   length (chain (Some h)) = length (chain (Some h')) + (if removed = None then 0 else 1)"
proof (induction h arbitrary: i h')
  case (LinkedListNode v nx)
  show ?case
  proof (cases "js_lt (int_number i) (js_sub index (Num 1))")
    case False
    show ?thesis
    proof (cases nx)
      case None
      with False LinkedListNode.prems show ?thesis by auto
    next
      case (Some r)
      obtain w rest where "r = LinkedListNode w rest" by (cases r)
      with Some False LinkedListNode.prems show ?thesis by auto
    qed
  next
    case True
    with LinkedListNode.prems obtain c where c: "nx = Some c" by (cases nx) simp_all
    with True LinkedListNode.prems obtain c' where
      c': "removeAt_loop c (i + 1) index = Inr (removed, c')" "h' = LinkedListNode v (Some c')"
      by (auto split: sum.splits)
    from c have "c \<in> set_option nx" by simp
    from LinkedListNode.IH [OF this c'(1)] c c'(2) show ?thesis by simp
  qed
qed

section \<open>The operations, in terms of \<open>toArray\<close>\<close>

lemma chain_fromArray_aux:
  "chain (head (foldl (\<lambda>l v. add v l) l0 arr)) = chain (head l0) @ arr"
proof (induction arr arbitrary: l0)
  case Nil
  show ?case by simp
next
  case (Cons a arr)
  have "chain (head (add a l0)) = chain (head l0) @ [a]"
    by (cases "head l0") (simp_all add: add_def chain_add_loop)
  with Cons [of "add a l0"] show ?case by simp
qed

lemma toArray_add: "toArray (add v l) = toArray l @ [v]"
  by (cases "head l") (simp_all add: toArray_chain add_def chain_add_loop)

lemma toArray_fromArray: "toArray (fromArray arr) = arr"
  by (simp add: toArray_chain fromArray_def chain_fromArray_aux newLinkedList_def)

lemma size_add: "size_field (add v l) = size_field l + 1"
  by (cases "head l") (simp_all add: add_def)

text \<open>A finite index \<open>x\<close> in range acts at position \<open>\<lceil>x\<rceil>\<close>.\<close>

lemma insertAt_ok:
  assumes inv: "size_field l = int (length (toArray l))"
    and lo: "0 \<le> x" and hi: "x \<le> of_int (size_field l)"
  shows "fst (insertAt (Num x) v l) = Inr () \<and>
         toArray (snd (insertAt (Num x) v l)) =
           take (nat \<lceil>x\<rceil>) (toArray l) @ v # drop (nat \<lceil>x\<rceil>) (toArray l) \<and>
         size_field (snd (insertAt (Num x) v l)) = size_field l + 1"
proof (cases "x = 0")
  case True
  then show ?thesis using hi
    by (simp add: insertAt_def toArray_chain js_gt_def int_number_def)
next
  case False
  with lo have pos: "0 < \<lceil>x\<rceil>" by (simp add: less_ceiling_iff)
  from hi have le: "\<lceil>x\<rceil> \<le> size_field l" by (simp add: ceiling_le_iff)
  from pos le inv obtain h where h: "head l = Some h"
    by (cases "head l") (auto simp: toArray_chain)
  from inv h have len: "size_field l = int (length (chain (Some h)))"
    by (simp add: toArray_chain)
  from pos have a: "(0::int) \<le> \<lceil>x\<rceil> - 1" by linarith
  from pos le len have b: "nat (\<lceil>x\<rceil> - 1 - 0) < length (chain (Some h))" by linarith
  from insertAt_loop_ok [OF a b, of v] obtain h' where
    "insertAt_loop h 0 (Num x) v = Inr h'"
    "chain (Some h') = take (nat \<lceil>x\<rceil>) (chain (Some h)) @ v # drop (nat \<lceil>x\<rceil>) (chain (Some h))"
    by auto
  with False lo hi h show ?thesis
    by (simp add: insertAt_def toArray_chain js_gt_def int_number_def)
qed

lemma removeAt_ok:
  assumes inv: "size_field l = int (length (toArray l))"
    and lo: "0 \<le> x" and hi: "\<lceil>x\<rceil> < size_field l"
  shows "fst (removeAt (Num x) l) = Inr (Some (toArray l ! nat \<lceil>x\<rceil>)) \<and>
         toArray (snd (removeAt (Num x) l)) =
           take (nat \<lceil>x\<rceil>) (toArray l) @ drop (nat \<lceil>x\<rceil> + 1) (toArray l) \<and>
         size_field (snd (removeAt (Num x) l)) = size_field l - 1"
proof -
  from lo have nn: "0 \<le> \<lceil>x\<rceil>" by (simp add: le_ceiling_iff)
  from hi have lt: "x < of_int (size_field l)" by (simp add: ceiling_less_iff)
  from nn hi inv obtain h where h: "head l = Some h"
    by (cases "head l") (auto simp: toArray_chain)
  show ?thesis
  proof (cases "x = 0")
    case True
    obtain w rest where "h = LinkedListNode w rest" by (cases h)
    with True h lt show ?thesis
      by (simp add: removeAt_def toArray_chain js_ge_def int_number_def)
  next
    case False
    with lo have pos: "0 < \<lceil>x\<rceil>" by (simp add: less_ceiling_iff)
    from inv h have len: "size_field l = int (length (chain (Some h)))"
      by (simp add: toArray_chain)
    from pos have a: "(0::int) \<le> \<lceil>x\<rceil> - 1" by linarith
    from pos hi len have b: "nat (\<lceil>x\<rceil> - 0) < length (chain (Some h))" by linarith
    from removeAt_loop_ok [OF a b] obtain r h' where
      "removeAt_loop h 0 (Num x) = Inr (Some r, h')"
      "node_value r = chain (Some h) ! nat \<lceil>x\<rceil>"
      "chain (Some h') = take (nat \<lceil>x\<rceil>) (chain (Some h)) @ drop (nat \<lceil>x\<rceil> + 1) (chain (Some h))"
      by auto
    with False lo lt h show ?thesis
      by (simp add: removeAt_def toArray_chain js_ge_def int_number_def)
  qed
qed

text \<open>Whatever the index, a call leaves the counter equal to the number of elements.\<close>

lemma insertAt_size_toArray:
  assumes inv: "size_field l = int (length (toArray l))"
  shows "size_field (snd (insertAt index v l)) = int (length (toArray (snd (insertAt index v l))))"
proof (cases "head l")
  case None
  with inv show ?thesis by (simp add: insertAt_def toArray_chain)
next
  case (Some h)
  show ?thesis
  proof (cases "insertAt_loop h 0 index v")
    case (Inl e)
    with Some inv show ?thesis by (simp add: insertAt_def toArray_chain)
  next
    case (Inr h')
    from insertAt_loop_length [OF this] Inr Some inv show ?thesis
      by (simp add: insertAt_def toArray_chain)
  qed
qed

lemma removeAt_size_toArray:
  assumes inv: "size_field l = int (length (toArray l))"
  shows "size_field (snd (removeAt index l)) = int (length (toArray (snd (removeAt index l))))"
proof (cases "head l")
  case None
  with inv show ?thesis by (simp add: removeAt_def toArray_chain)
next
  case (Some h)
  obtain w rest where h: "h = LinkedListNode w rest" by (cases h)
  show ?thesis
  proof (cases "removeAt_loop h 0 index")
    case (Inl e)
    with Some h inv show ?thesis by (simp add: removeAt_def toArray_chain)
  next
    case (Inr p)
    then obtain removed h' where p: "removeAt_loop h 0 index = Inr (removed, h')"
      by (cases p) simp
    from removeAt_loop_length [OF this] p Some h inv show ?thesis
      by (auto simp: removeAt_def toArray_chain)
  qed
qed

lemma apply_operation_inv:
  "size_field l = int (length (toArray l)) \<Longrightarrow>
   size_field (apply_operation l opn) = int (length (toArray (apply_operation l opn)))"
proof (cases opn)
  case (Add v)
  assume "size_field l = int (length (toArray l))"
  with Add show ?thesis by (simp add: size_add toArray_add)
next
  case (InsertAt i v)
  assume "size_field l = int (length (toArray l))"
  with InsertAt show ?thesis by (simp add: insertAt_size_toArray)
next
  case (RemoveAt i)
  assume "size_field l = int (length (toArray l))"
  with RemoveAt show ?thesis by (simp add: removeAt_size_toArray)
next
  case Clear
  then show ?thesis by (simp add: clear_def toArray_def)
qed

lemma foldl_apply_operation_inv:
  "size_field l = int (length (toArray l)) \<Longrightarrow>
   size_field (foldl apply_operation l ops) = int (length (toArray (foldl apply_operation l ops)))"
  by (induction ops arbitrary: l) (simp_all add: apply_operation_inv)

lemma size_fromArray_aux:
  "size_field (foldl (\<lambda>l v. add v l) l0 arr) = size_field l0 + int (length arr)"
  by (induction arr arbitrary: l0) (simp_all add: size_add)

lemma fromArray_inv: "size_field (fromArray arr) = int (length (toArray (fromArray arr)))"
  by (simp add: toArray_fromArray) (simp add: fromArray_def size_fromArray_aux newLinkedList_def)

text \<open>The definitions unfolded when a call is evaluated on a concrete list.\<close>

lemmas ll_defs = fromArray_def add_def newLinkedList_def insertAt_def removeAt_def toArray_def
  size_ll_def find_ll_def clear_def js_gt_def js_ge_def int_number_def

section \<open>Properties of the operations\<close>

text \<open>
  C1. On a list whose counter agrees with its contents, \<open>insertAt(i, v)\<close> with
  an integer \<open>i\<close>, \<open>0 \<le> i \<le> size()\<close>, returns normally, the array afterwards is the first \<open>i\<close> old
  elements, then \<open>v\<close>, then the remaining old elements, and \<open>size()\<close> has grown by exactly
  one. After \<open>add(1)\<close>, \<open>add(2)\<close>, \<open>add(3)\<close> and \<open>insertAt(2, 99)\<close>, \<open>toArray()\<close> is
  \<open>[1, 2, 99, 3]\<close>.
\<close>

theorem insertAt_in_range:
  assumes "size_ll l = int (length (toArray l))" and "0 \<le> i" and "i \<le> size_ll l"
  shows "fst (insertAt (int_number i) v l) = Inr () \<and>
         toArray (snd (insertAt (int_number i) v l)) = take (nat i) (toArray l) @ [v] @ drop (nat i) (toArray l) \<and>
         size_ll (snd (insertAt (int_number i) v l)) = size_ll l + 1 \<and>
         toArray (snd (insertAt (int_number 2) 99 (add 3 (add 2 (add 1 newLinkedList))))) = [1, 2, 99, 3 :: int]"
proof -
  from assms have gen: "fst (insertAt (int_number i) v l) = Inr () \<and>
         toArray (snd (insertAt (int_number i) v l)) = take (nat i) (toArray l) @ v # drop (nat i) (toArray l) \<and>
         size_field (snd (insertAt (int_number i) v l)) = size_field l + 1"
    using insertAt_ok [of l "of_int i" v] by (simp add: size_ll_def int_number_def)
  have ex: "toArray (snd (insertAt (int_number 2) 99 (add 3 (add 2 (add 1 newLinkedList))))) = [1, 2, 99, 3 :: int]"
    by (simp add: ll_defs)
  from gen ex show ?thesis by (simp add: size_ll_def)
qed

theorem insertAt_in_range_witness:
  "size_ll (fromArray [1, 2, 3 :: int]) = int (length (toArray (fromArray [1, 2, 3 :: int]))) \<and>
   (0::int) \<le> 2 \<and> 2 \<le> size_ll (fromArray [1, 2, 3 :: int]) \<and>
   fst (insertAt (int_number 2) 99 (fromArray [1, 2, 3 :: int])) = Inr () \<and>
   toArray (snd (insertAt (int_number 2) 99 (fromArray [1, 2, 3 :: int]))) = [1, 2, 99, 3] \<and>
   size_ll (snd (insertAt (int_number 2) 99 (fromArray [1, 2, 3 :: int]))) = 4"
proof -
  have h1: "size_ll (fromArray [1, 2, 3 :: int]) = int (length (toArray (fromArray [1, 2, 3 :: int])))"
    by (simp add: ll_defs)
  have h2: "(0::int) \<le> 2" by simp
  have h3: "2 \<le> size_ll (fromArray [1, 2, 3 :: int])" by (simp add: ll_defs)
  have t: "toArray (fromArray [1, 2, 3 :: int]) = [1, 2, 3]" by (simp add: ll_defs)
  have s: "size_ll (fromArray [1, 2, 3 :: int]) = 3" by (simp add: ll_defs)
  from insertAt_in_range [OF h1 h2 h3, of 99] h1 h3 show ?thesis
    unfolding t s by (simp add: numeral_2_eq_2)
qed

text \<open>
  C2. On a list whose counter agrees with its contents, \<open>removeAt(i)\<close> with
  an integer \<open>i\<close>, \<open>0 \<le> i < size()\<close>, returns the element at position \<open>i\<close>, and the array afterwards is the
  old one without that position, the other elements in their order. \<open>removeAt(2)\<close> on
  \<open>[1, 2, 99, 3]\<close> returns \<open>99\<close> and leaves \<open>[1, 2, 3]\<close>.
\<close>

theorem removeAt_in_range:
  assumes "size_ll l = int (length (toArray l))" and "0 \<le> i" and "i < size_ll l"
  shows "fst (removeAt (int_number i) l) = Inr (Some (toArray l ! nat i)) \<and>
         toArray (snd (removeAt (int_number i) l)) = take (nat i) (toArray l) @ drop (nat i + 1) (toArray l) \<and>
         fst (removeAt (int_number 2) (fromArray [1, 2, 99, 3 :: int])) = Inr (Some 99) \<and>
         toArray (snd (removeAt (int_number 2) (fromArray [1, 2, 99, 3 :: int]))) = [1, 2, 3]"
proof -
  from assms have gen: "fst (removeAt (int_number i) l) = Inr (Some (toArray l ! nat i)) \<and>
         toArray (snd (removeAt (int_number i) l)) = take (nat i) (toArray l) @ drop (nat i + 1) (toArray l) \<and>
         size_field (snd (removeAt (int_number i) l)) = size_field l - 1"
    using removeAt_ok [of l "of_int i"] by (simp add: size_ll_def int_number_def)
  have ex: "removeAt (int_number 2) (fromArray [1, 2, 99, 3 :: int]) = (Inr (Some 99), fromArray [1, 2, 3])"
    by (simp add: ll_defs)
  have "toArray (fromArray [1, 2, 3 :: int]) = [1, 2, 3]"
    by (rule toArray_fromArray)
  with gen ex show ?thesis by simp
qed

theorem removeAt_in_range_witness:
  "size_ll (fromArray ''abcd'') = int (length (toArray (fromArray ''abcd''))) \<and>
   (0::int) \<le> 1 \<and> 1 < size_ll (fromArray ''abcd'') \<and>
   fst (removeAt (int_number 1) (fromArray ''abcd'')) = Inr (Some (CHR ''b'')) \<and>
   toArray (snd (removeAt (int_number 1) (fromArray ''abcd''))) = ''acd''"
proof -
  have t: "toArray (fromArray ''abcd'') = ''abcd''" by (rule toArray_fromArray)
  have s: "size_ll (fromArray ''abcd'') = 4" by (simp add: ll_defs)
  have h1: "size_ll (fromArray ''abcd'') = int (length (toArray (fromArray ''abcd'')))"
    unfolding t s by simp
  have h2: "(0::int) \<le> 1" by simp
  have h3: "1 < size_ll (fromArray ''abcd'')" unfolding s by simp
  from removeAt_in_range [OF h1 h2 h3] h1 h3 show ?thesis
    unfolding t by simp
qed

text \<open>
  C3. On a list whose counter agrees with its contents, \<open>insertAt(index, v)\<close> throws the
  out-of-range error exactly when \<open>index < 0\<close> or \<open>index > size()\<close>, as JavaScript compares
  numbers, and the list after that failed call is the list before it. At \<open>NaN\<close> neither
  comparison holds and the error is not thrown. For a finite index the call throws nothing
  else either: it throws exactly when the index is below \<open>0\<close> or above \<open>size()\<close>.
\<close>

theorem insertAt_out_of_range:
  assumes "size_ll l = int (length (toArray l))"
  shows "(fst (insertAt index v l) = Inl (RangeError ''index out of bounds'') \<longleftrightarrow>
            (js_lt index (Num 0) \<or> js_gt index (int_number (size_ll l)))) \<and>
         ((js_lt index (Num 0) \<or> js_gt index (int_number (size_ll l))) \<longrightarrow>
            snd (insertAt index v l) = l) \<and>
         fst (insertAt NaN v l) \<noteq> Inl (RangeError ''index out of bounds'') \<and>
         ((\<exists>e. fst (insertAt (Num x) v l) = Inl e) \<longleftrightarrow> (x < 0 \<or> x > of_int (size_ll l))) \<and>
         ((\<exists>e. fst (insertAt (int_number i) v l) = Inl e) \<longleftrightarrow> (i < 0 \<or> i > size_ll l))"
proof -
  have not_range: "fst (insertAt j v l) \<noteq> Inl (RangeError ''index out of bounds'')"
    if "\<not> (js_lt j (Num 0) \<or> js_gt j (int_number (size_ll l)))" for j
  proof (cases "head l")
    case None
    with that show ?thesis by (simp add: insertAt_def size_ll_def)
  next
    case (Some h)
    with that insertAt_loop_no_RangeError [of h 0 j v "''index out of bounds''"]
    show ?thesis by (auto simp: insertAt_def size_ll_def split: sum.splits)
  qed
  have a: "fst (insertAt index v l) = Inl (RangeError ''index out of bounds'') \<longleftrightarrow>
            (js_lt index (Num 0) \<or> js_gt index (int_number (size_ll l)))"
    using not_range [of index] by (auto simp: insertAt_def size_ll_def)
  have b: "(js_lt index (Num 0) \<or> js_gt index (int_number (size_ll l))) \<longrightarrow>
            snd (insertAt index v l) = l"
    by (auto simp: insertAt_def size_ll_def)
  have c: "fst (insertAt NaN v l) \<noteq> Inl (RangeError ''index out of bounds'')"
    by (rule not_range) (simp add: js_gt_def int_number_def)
  have d: "(\<exists>e. fst (insertAt (Num y) v l) = Inl e) \<longleftrightarrow> (y < 0 \<or> y > of_int (size_ll l))" for y
  proof (cases "y < 0 \<or> y > of_int (size_ll l)")
    case True
    then show ?thesis by (auto simp: insertAt_def size_ll_def js_gt_def int_number_def)
  next
    case False
    with assms have "fst (insertAt (Num y) v l) = Inr ()"
      using insertAt_ok [of l y v] by (simp add: size_ll_def)
    with False show ?thesis by simp
  qed
  from d [of "of_int i"]
  have e: "(\<exists>e. fst (insertAt (int_number i) v l) = Inl e) \<longleftrightarrow> (i < 0 \<or> i > size_ll l)"
    by (simp add: int_number_def)
  from a b c d [of x] e show ?thesis by (intro conjI)
qed

theorem insertAt_out_of_range_witness:
  "size_ll (fromArray [1, 2, 3 :: int]) = int (length (toArray (fromArray [1, 2, 3 :: int]))) \<and>
   (js_lt (int_number 4) (Num 0) \<or>
    js_gt (int_number 4) (int_number (size_ll (fromArray [1, 2, 3 :: int])))) \<and>
   insertAt (int_number 4) 99 (fromArray [1, 2, 3 :: int]) =
     (Inl (RangeError ''index out of bounds''), fromArray [1, 2, 3]) \<and>
   (\<exists>e. fst (insertAt (int_number (- 1)) 99 (fromArray [1, 2, 3 :: int])) = Inl e) \<and>
   \<not> (\<exists>e. fst (insertAt (int_number 3) 99 (fromArray [1, 2, 3 :: int])) = Inl e) \<and>
   \<not> (\<exists>e. fst (insertAt (Num (5 / 2)) 99 (fromArray [1, 2, 3 :: int])) = Inl e) \<and>
   fst (insertAt NaN 99 (fromArray [1, 2, 3 :: int])) \<noteq> Inl (RangeError ''index out of bounds'')"
proof -
  have s: "size_ll (fromArray [1, 2, 3 :: int]) = 3" by (simp add: ll_defs)
  have t: "toArray (fromArray [1, 2, 3 :: int]) = [1, 2, 3]" by (rule toArray_fromArray)
  have h: "size_ll (fromArray [1, 2, 3 :: int]) = int (length (toArray (fromArray [1, 2, 3 :: int])))"
    unfolding s t by simp
  have g: "js_lt (int_number 4) (Num 0) \<or>
    js_gt (int_number 4) (int_number (size_ll (fromArray [1, 2, 3 :: int])))"
    unfolding s by (simp add: js_gt_def int_number_def)
  from insertAt_out_of_range [OF h, of "int_number 4" 99] g
  have "insertAt (int_number 4) 99 (fromArray [1, 2, 3 :: int]) =
     (Inl (RangeError ''index out of bounds''), fromArray [1, 2, 3])"
    by (simp add: prod_eq_iff)
  with insertAt_out_of_range [OF h, of _ 99 _ "- 1"] insertAt_out_of_range [OF h, of _ 99 _ 3]
    insertAt_out_of_range [OF h, of _ 99 "5 / 2"] h g
  show ?thesis unfolding s by simp
qed

text \<open>
  C4. Not for every index outside \<open>[0, n)\<close>: at \<open>NaN\<close> the guard
  \<open>index < 0 || index >= this._size\<close> is false, and \<open>removeAt(NaN)\<close> on \<open>[1, 2, 3]\<close> removes and
  returns \<open>2\<close>, while on a new list it throws a \<open>TypeError\<close>.
\<close>

theorem removeAt_NaN_counterexample:
  "size_ll (fromArray [1, 2, 3 :: int]) = 3 \<and>
   toArray (fromArray [1, 2, 3 :: int]) = [1, 2, 3] \<and>
   \<not> (js_ge NaN (Num 0) \<and> js_lt NaN (int_number 3)) \<and>
   fst (removeAt NaN (fromArray [1, 2, 3 :: int])) = Inr (Some 2) \<and>
   toArray (snd (removeAt NaN (fromArray [1, 2, 3 :: int]))) = [1, 3] \<and>
   size_ll (snd (removeAt NaN (fromArray [1, 2, 3 :: int]))) = 2 \<and>
   fst (removeAt NaN (newLinkedList :: int LinkedList)) = Inl TypeError"
  by (simp add: ll_defs)

text \<open>
  C4, as amended. On a list of \<open>n\<close> elements whose counter agrees with its contents,
  \<open>removeAt(index)\<close> with an index other than \<open>NaN\<close> outside \<open>[0, n)\<close> (an integer, a fraction
  or an infinity, below \<open>0\<close> or not below \<open>n\<close>) returns \<open>undefined\<close> without throwing, and the
  list afterwards (its contents and its counter) is the list before.
\<close>

theorem removeAt_out_of_range:
  assumes "size_ll l = int (length (toArray l))" and "index \<noteq> NaN"
    and "\<not> (js_ge index (Num 0) \<and> js_lt index (int_number (int (length (toArray l)))))"
  shows "fst (removeAt index l) = Inr None \<and>
         size_ll (snd (removeAt index l)) = size_ll l \<and>
         toArray (snd (removeAt index l)) = toArray l \<and>
         snd (removeAt index l) = l"
proof -
  from assms have "js_lt index (Num 0) \<or> js_ge index (int_number (size_field l))"
    by (cases index) (auto simp: js_ge_def int_number_def size_ll_def)
  then show ?thesis by (simp add: removeAt_def)
qed

theorem removeAt_out_of_range_witness:
  "size_ll (fromArray [1, 2, 3 :: int]) = int (length (toArray (fromArray [1, 2, 3 :: int]))) \<and>
   int_number 3 \<noteq> NaN \<and>
   \<not> (js_ge (int_number 3) (Num 0) \<and>
      js_lt (int_number 3) (int_number (int (length (toArray (fromArray [1, 2, 3 :: int])))))) \<and>
   removeAt (int_number 3) (fromArray [1, 2, 3 :: int]) = (Inr None, fromArray [1, 2, 3]) \<and>
   removeAt (int_number (- 1)) (fromArray [1, 2, 3 :: int]) = (Inr None, fromArray [1, 2, 3]) \<and>
   removeAt (Num (7 / 2)) (fromArray [1, 2, 3 :: int]) = (Inr None, fromArray [1, 2, 3]) \<and>
   removeAt PosInfinity (fromArray [1, 2, 3 :: int]) = (Inr None, fromArray [1, 2, 3])"
proof -
  have s: "size_ll (fromArray [1, 2, 3 :: int]) = 3" by (simp add: ll_defs)
  have t: "toArray (fromArray [1, 2, 3 :: int]) = [1, 2, 3]" by (rule toArray_fromArray)
  have h: "size_ll (fromArray [1, 2, 3 :: int]) = int (length (toArray (fromArray [1, 2, 3 :: int])))"
    unfolding s t by simp
  have n: "int_number 3 \<noteq> NaN" "int_number (- 1) \<noteq> NaN" "Num (7 / 2) \<noteq> NaN" "PosInfinity \<noteq> NaN"
    by (simp_all add: int_number_def)
  have a: "\<not> (js_ge (int_number 3) (Num 0) \<and>
      js_lt (int_number 3) (int_number (int (length (toArray (fromArray [1, 2, 3 :: int]))))))"
    unfolding t by (simp add: int_number_def)
  have b: "\<not> (js_ge (int_number (- 1)) (Num 0) \<and>
      js_lt (int_number (- 1)) (int_number (int (length (toArray (fromArray [1, 2, 3 :: int]))))))"
    unfolding t by (simp add: int_number_def js_ge_def)
  have c: "\<not> (js_ge (Num (7 / 2)) (Num 0) \<and>
      js_lt (Num (7 / 2)) (int_number (int (length (toArray (fromArray [1, 2, 3 :: int]))))))"
    unfolding t by (simp add: int_number_def)
  have d: "\<not> (js_ge PosInfinity (Num 0) \<and>
      js_lt PosInfinity (int_number (int (length (toArray (fromArray [1, 2, 3 :: int]))))))"
    unfolding t by (simp add: int_number_def)
  from removeAt_out_of_range [OF h n(1) a] removeAt_out_of_range [OF h n(2) b]
    removeAt_out_of_range [OF h n(3) c] removeAt_out_of_range [OF h n(4) d] h n(1) a
  show ?thesis by (simp add: prod_eq_iff)
qed

text \<open>
  C5. After \<open>add(v)\<close> the array of the list is the array before with \<open>v\<close> as its new last
  element, and \<open>LinkedList.fromArray(arr).toArray()\<close> is \<open>arr\<close>.
\<close>

theorem add_appends:
  "toArray (add v l) = toArray l @ [v] \<and> toArray (fromArray arr) = arr"
  by (simp add: toArray_add toArray_fromArray)

text \<open>
  C6. \<open>find(p)\<close> returns \<open>undefined\<close> exactly when no element of the list satisfies \<open>p\<close>, and
  otherwise the element at the least position whose element satisfies \<open>p\<close>.
  \<open>find(v => v > 50)\<close> on \<open>[1, 2, 99, 3]\<close> returns \<open>99\<close>.
\<close>

theorem find_first:
  "(find_ll p l = None \<longleftrightarrow> (\<forall>x \<in> set (toArray l). \<not> p x)) \<and>
   (\<forall>x. find_ll p l = Some x \<longleftrightarrow>
      (\<exists>i < length (toArray l). toArray l ! i = x \<and> p x \<and> (\<forall>j < i. \<not> p (toArray l ! j)))) \<and>
   find_ll (\<lambda>v. v > 50) (fromArray [1, 2, 99, 3 :: int]) = Some 99"
proof -
  have eq: "find_ll p l = List.find p (toArray l)" for p and l :: "'b LinkedList"
    by (simp add: find_ll_def find_loop_chain toArray_chain)
  have "toArray (fromArray [1, 2, 99, 3 :: int]) = [1, 2, 99, 3]"
    by (rule toArray_fromArray)
  then have ex: "find_ll (\<lambda>v. v > 50) (fromArray [1, 2, 99, 3 :: int]) = Some 99"
    by (simp add: eq)
  have none: "find_ll p l = None \<longleftrightarrow> (\<forall>x \<in> set (toArray l). \<not> p x)"
    unfolding eq find_None_iff by blast
  have some: "\<forall>x. find_ll p l = Some x \<longleftrightarrow>
      (\<exists>i < length (toArray l). toArray l ! i = x \<and> p x \<and> (\<forall>j < i. \<not> p (toArray l ! j)))"
    unfolding eq find_Some_iff by blast
  from none some ex show ?thesis by (intro conjI)
qed

theorem find_first_witness:
  "find_ll (\<lambda>v. v > 50) (fromArray [1, 60, 99, 3 :: int]) = Some 60 \<and>
   (\<exists>i < length (toArray (fromArray [1, 60, 99, 3 :: int])).
      toArray (fromArray [1, 60, 99, 3 :: int]) ! i = 60 \<and> (60::int) > 50 \<and>
      (\<forall>j < i. \<not> toArray (fromArray [1, 60, 99, 3 :: int]) ! j > 50)) \<and>
   find_ll (\<lambda>v. v > 100) (fromArray [1, 60, 99, 3 :: int]) = None \<and>
   toArray (fromArray [1, 60, 99, 3 :: int]) = [1, 60, 99, 3]"
proof -
  have a: "find_ll (\<lambda>v. v > 50) (fromArray [1, 60, 99, 3 :: int]) = Some 60"
    by (simp add: ll_defs)
  have t: "toArray (fromArray [1, 60, 99, 3 :: int]) = [1, 60, 99, 3]"
    by (rule toArray_fromArray)
  then have b: "\<forall>x \<in> set (toArray (fromArray [1, 60, 99, 3 :: int])). \<not> x > 100"
    by simp
  from find_first [of "\<lambda>v. v > 50" "fromArray [1, 60, 99, 3 :: int]"]
    find_first [of "\<lambda>v. v > 100" "fromArray [1, 60, 99, 3 :: int]"] a b t
  show ?thesis by blast
qed

text \<open>
  C7. After \<open>clear()\<close>, whatever the list was, \<open>size()\<close> is \<open>0\<close> and \<open>toArray()\<close> is empty.
\<close>

theorem clear_empties:
  "size_ll (clear l) = 0 \<and> toArray (clear l) = []"
  by (simp add: clear_def size_ll_def toArray_def)

text \<open>
  C8. \<open>ensureHasLength(arg)\<close> throws exactly when \<open>arg.length\<close> is \<open>0\<close>; what it throws is
  \<open>Error('Empty')\<close>, as the result of the call itself; otherwise it returns \<open>arg\<close>.
\<close>

theorem ensureHasLength_fails_iff_empty:
  "((\<exists>e. ensureHasLength arg = Inl e) \<longleftrightarrow> length' arg = 0) \<and>
   (length' arg = 0 \<longrightarrow> ensureHasLength arg = Inl (Error ''Empty'')) \<and>
   (length' arg \<noteq> 0 \<longrightarrow> ensureHasLength arg = Inr arg)"
  by (simp add: ensureHasLength_def)

theorem ensureHasLength_fails_iff_empty_witness:
  "length' (arrayValue ([] :: int list)) = 0 \<and>
   ensureHasLength (arrayValue ([] :: int list)) = Inl (Error ''Empty'') \<and>
   length' (arrayValue ''abc'') \<noteq> 0 \<and>
   ensureHasLength (arrayValue ''abc'') = Inr (arrayValue ''abc'')"
proof -
  have a: "length' (arrayValue ([] :: int list)) = 0"
    by (simp add: arrayValue_def)
  have b: "length' (arrayValue ''abc'') \<noteq> 0"
    by (simp add: arrayValue_def)
  from ensureHasLength_fails_iff_empty [of "arrayValue ([] :: int list)"]
    ensureHasLength_fails_iff_empty [of "arrayValue ''abc''"] a b
  show ?thesis by blast
qed

text \<open>
  C9. After \<open>fromArray(arr)\<close> and any finite sequence of \<open>add\<close>, \<open>insertAt\<close>, \<open>removeAt\<close> and
  \<open>clear\<close> calls, at any indices, \<open>size()\<close> is the number of elements of \<open>toArray()\<close>.
\<close>

theorem size_is_length_toArray:
  "size_ll (run arr ops) = int (length (toArray (run arr ops)))"
  unfolding run_def size_ll_def
  by (rule foldl_apply_operation_inv) (rule fromArray_inv)

theorem size_is_length_toArray_witness:
  "toArray (run [1, 2, 3 :: int]
      [Add 4, InsertAt (Num 2) 99, InsertAt (Num 9) 7, RemoveAt (Num 0), RemoveAt (Num 7)]) =
     [2, 99, 3, 4] \<and>
   size_ll (run [1, 2, 3 :: int]
      [Add 4, InsertAt (Num 2) 99, InsertAt (Num 9) 7, RemoveAt (Num 0), RemoveAt (Num 7)]) = 4 \<and>
   toArray (run [1, 2, 3 :: int]
      [RemoveAt NaN, InsertAt NaN 5, InsertAt (Num (5 / 2)) 8]) = [1, 5, 3, 8] \<and>
   size_ll (run [1, 2, 3 :: int]
      [RemoveAt NaN, InsertAt NaN 5, InsertAt (Num (5 / 2)) 8]) = 4"
proof -
  have t: "toArray (run [1, 2, 3 :: int]
      [Add 4, InsertAt (Num 2) 99, InsertAt (Num 9) 7, RemoveAt (Num 0), RemoveAt (Num 7)])
      = [2, 99, 3, 4]"
    by (simp add: run_def ll_defs)
  have u: "toArray (run [1, 2, 3 :: int]
      [RemoveAt NaN, InsertAt NaN 5, InsertAt (Num (5 / 2)) 8]) = [1, 5, 3, 8]"
    by (simp add: run_def ll_defs)
  from size_is_length_toArray [of "[1, 2, 3 :: int]"
      "[Add 4, InsertAt (Num 2) 99, InsertAt (Num 9) 7, RemoveAt (Num 0), RemoveAt (Num 7)]"]
    size_is_length_toArray [of "[1, 2, 3 :: int]"
      "[RemoveAt NaN, InsertAt NaN 5, InsertAt (Num (5 / 2)) 8]"] t u
  show ?thesis by simp
qed

text \<open>
  C10. On a stack with no items \<open>pop()\<close> and \<open>peek()\<close> return \<open>undefined\<close> and the stack
  stays as it is; \<open>push(x)\<close> followed by \<open>pop()\<close> returns \<open>x\<close> and leaves the stack as it was
  before the \<open>push\<close>.
\<close>

theorem stack_pop_peek:
  "(items s = [] \<longrightarrow> pop s = (None, s) \<and> peek s = None) \<and>
   pop (push x s) = (Some x, s)"
  by (simp add: pop_def peek_def push_def arrayPop_def arrayGet_def)

theorem stack_pop_peek_witness:
  "items (newStack :: int Stack) = [] \<and>
   pop (newStack :: int Stack) = (None, newStack) \<and> peek (newStack :: int Stack) = None \<and>
   pop (push (20 :: int) (push 10 newStack)) = (Some 20, push 10 newStack)"
proof -
  have a: "items (newStack :: int Stack) = []" by (simp add: newStack_def)
  from stack_pop_peek [of "newStack :: int Stack" 20] stack_pop_peek [of "push 10 newStack" "20 :: int"] a
  show ?thesis by simp
qed

end
